theory Spec2Isabelle
  imports Main "HOL-Library.Word"
begin

section \<open>The token refresher of backoff.go\<close>

subsection \<open>Durations and errors\<close>

text \<open>
  Go's \<^verbatim>\<open>time.Duration\<close> is an \<^verbatim>\<open>int64\<close> count of nanoseconds: subtraction wraps around,
  and \<open>sint\<close> reads the sign.
\<close>

type_synonym duration = "64 word"

definition Second :: duration where
  "Second = 1000000000"

definition Minute :: duration where
  "Minute = 60 * Second"

text \<open>
  Errors are compared by identity in the source (\<^verbatim>\<open>err == ErrShutdown\<close>). \<open>ErrShutdown\<close> is the
  package variable; every other error value (of \<^verbatim>\<open>errors.New\<close>, here or in a Retriever) is an
  \<open>ErrorNew\<close> carrying its message.
\<close>

datatype error = ErrShutdown | ErrorNew string

subsection \<open>The lock, the force channel and the refresher\<close>

text \<open>
  \<^verbatim>\<open>sync.RWMutex\<close>: one writer or any number of readers. \<open>Lock\<close> and \<open>RLock\<close> give \<open>None\<close>
  where the Go call would block.
\<close>

record rwmutex =
  writer :: bool
  readers :: nat

text \<open>
  A channel of \<^verbatim>\<open>struct{}\<close>: its capacity, the number of values queued in its buffer, and
  whether a goroutine is blocked receiving from it.
\<close>

record chan =
  capacity :: nat
  queued :: nat
  receiver :: bool

text \<open>
  What the refresher does, in order: the calls on the lock, on the Retriever, the writes of the
  token field, the log lines and the force requests handed to the refresher goroutine.
\<close>

datatype action =
    Act_Lock
  | Act_Unlock
  | Act_RetrieveToken
  | Act_setToken string
  | Act_Crit string
  | Act_Error string
  | Act_force

text \<open>
  The struct \<^verbatim>\<open>tokenRefresher\<close>. The Retriever is an interface value whose answers the
  refresher cannot see in advance: \<open>retriever m i\<close> is what its call number \<open>i\<close> (from 0)
  returns, a triple as in Go, and \<open>called\<close> counts the calls made so far (the field
  \<^verbatim>\<open>called\<close> of the tests' \<^verbatim>\<open>mockRetriever\<close>). \<open>done_ch\<close> says whether the channel
  \<^verbatim>\<open>done\<close> is closed. The logger is the \<open>trace\<close>, which also records the other actions.
\<close>

record tokenRefresher =
  retriever :: "nat \<Rightarrow> string \<times> duration \<times> error option"
  refreshBuffer :: duration
  closeOnce :: bool
  done_ch :: bool
  force :: chan
  mu :: rwmutex
  token :: string
  called :: nat
  trace :: "action list"

definition act :: "action \<Rightarrow> tokenRefresher \<Rightarrow> tokenRefresher" where
  "act a m = m\<lparr>trace := trace m @ [a]\<rparr>"

definition Lock :: "tokenRefresher \<Rightarrow> tokenRefresher option" where
  "Lock m =
     (if writer (mu m) \<or> 0 < readers (mu m) then None
      else Some (act Act_Lock (m\<lparr>mu := (mu m)\<lparr>writer := True\<rparr>\<rparr>)))"

definition Unlock :: "tokenRefresher \<Rightarrow> tokenRefresher" where
  "Unlock m = act Act_Unlock (m\<lparr>mu := (mu m)\<lparr>writer := False\<rparr>\<rparr>)"

definition RLock :: "tokenRefresher \<Rightarrow> tokenRefresher option" where
  "RLock m =
     (if writer (mu m) then None
      else Some (m\<lparr>mu := (mu m)\<lparr>readers := Suc (readers (mu m))\<rparr>\<rparr>))"

definition RUnlock :: "tokenRefresher \<Rightarrow> tokenRefresher" where
  "RUnlock m = m\<lparr>mu := (mu m)\<lparr>readers := readers (mu m) - 1\<rparr>\<rparr>"

definition Crit :: "string \<Rightarrow> tokenRefresher \<Rightarrow> tokenRefresher" where
  "Crit msg m = act (Act_Crit msg) m"

definition Error :: "string \<Rightarrow> tokenRefresher \<Rightarrow> tokenRefresher" where
  "Error msg m = act (Act_Error msg) m"

text \<open>One call of \<^verbatim>\<open>m.retriever.RetrieveToken()\<close>.\<close>

definition RetrieveToken ::
  "tokenRefresher \<Rightarrow> (string \<times> duration \<times> error option) \<times> tokenRefresher" where
  "RetrieveToken m = (retriever m (called m), act Act_RetrieveToken (m\<lparr>called := Suc (called m)\<rparr>))"

text \<open>\<^verbatim>\<open>NewTokenRefresher\<close>, lines 43--54; the goroutine it starts is not run here.\<close>

definition NewTokenRefresher ::
  "duration \<Rightarrow> (nat \<Rightarrow> string \<times> duration \<times> error option) \<Rightarrow> tokenRefresher" where
  "NewTokenRefresher rb r =
     \<lparr>retriever = r, refreshBuffer = rb, closeOnce = False, done_ch = False,
      force = \<lparr>capacity = 0, queued = 0, receiver = False\<rparr>,
      mu = \<lparr>writer = False, readers = 0\<rparr>, token = [], called = 0, trace = []\<rparr>"

subsection \<open>The accessors\<close>

text \<open>
  \<^verbatim>\<open>GetToken\<close>, lines 58--68. The result is \<open>None\<close> while the call blocks in \<^verbatim>\<open>RLock\<close>;
  otherwise the pair the Go function returns.
\<close>

definition GetToken ::
  "tokenRefresher \<Rightarrow> (string \<times> error option) option \<times> tokenRefresher" where
  "GetToken m =
     (case RLock m of
        None \<Rightarrow> (None, m)
      | Some m1 \<Rightarrow>
          (let err = (if token m1 = [] then Some (ErrorNew ''Token is invalid or expired'')
                      else None)
           in (Some (token m1, err), RUnlock m1)))"

text \<open>
  The \<^verbatim>\<open>select\<close> with a send and a \<^verbatim>\<open>default\<close>: the send goes through when a receiver is
  blocked on the channel or the buffer has room, and is given up otherwise.
\<close>

definition try_send :: "chan \<Rightarrow> bool \<times> chan" where
  "try_send c =
     (if receiver c then (True, c\<lparr>receiver := False\<rparr>)
      else if queued c < capacity c then (True, c\<lparr>queued := Suc (queued c)\<rparr>)
      else (False, c))"

text \<open>\<^verbatim>\<open>Refresh\<close>, lines 72--77.\<close>

definition Refresh :: "tokenRefresher \<Rightarrow> tokenRefresher" where
  "Refresh m =
     (case try_send (force m) of
        (True, c) \<Rightarrow> act Act_force (m\<lparr>force := c\<rparr>)
      | (False, c) \<Rightarrow> m)"

text \<open>
  The refresher goroutine blocked in the \<^verbatim>\<open>select\<close> of lines 108--130, where it receives
  from \<^verbatim>\<open>m.force\<close>.
\<close>

definition await_select :: "tokenRefresher \<Rightarrow> tokenRefresher" where
  "await_select m = m\<lparr>force := (force m)\<lparr>receiver := True\<rparr>\<rparr>"

text \<open>\<^verbatim>\<open>Close\<close>, lines 81--86: the error returned and the new state.\<close>

definition Close :: "tokenRefresher \<Rightarrow> error option \<times> tokenRefresher" where
  "Close m =
     (None, if closeOnce m then m else m\<lparr>closeOnce := True, done_ch := True\<rparr>)"

subsection \<open>The refresh engine\<close>

definition setToken :: "string \<Rightarrow> tokenRefresher \<Rightarrow> tokenRefresher" where
  "setToken t m = act (Act_setToken t) (m\<lparr>token := t\<rparr>)"

text \<open>
  The backoff policies of \<^verbatim>\<open>github.com/cenkalti/backoff\<close>, with the one parameter the
  source sets: \<^verbatim>\<open>MaxElapsedTime\<close>, or the interval.
\<close>

datatype backoff = ExponentialBackOff duration | ConstantBackOff duration

text \<open>
  The ticker of that library and the channel \<^verbatim>\<open>done\<close> belong to the environment. What the
  refresher sees of them is the outcome of each \<^verbatim>\<open>select\<close> of \<^verbatim>\<open>refreshInner\<close>:
  \<open>Tick\<close>, a tick received from \<^verbatim>\<open>ticker.C\<close>; \<open>Stop\<close>, \<^verbatim>\<open>ticker.C\<close> found closed
  (\<^verbatim>\<open>ok\<close> false); \<open>Done\<close>, the receive from the closed channel \<^verbatim>\<open>done\<close>. A run is
  given the list of these outcomes, in order; when the list is used up the goroutine is
  still blocked in its \<^verbatim>\<open>select\<close>.
\<close>

datatype event = Tick | Stop | Done

text \<open>
  The loop of \<^verbatim>\<open>refreshInner\<close>, lines 196--216, with the named result \<^verbatim>\<open>err\<close> as its
  first argument. The result is \<open>None\<close> while the loop waits in its \<^verbatim>\<open>select\<close>, and
  the events left over are returned too.
\<close>

fun refreshInner_loop ::
  "error option \<Rightarrow> event list \<Rightarrow> tokenRefresher \<Rightarrow>
     (string \<times> duration \<times> error option) option \<times> tokenRefresher \<times> event list" where
  "refreshInner_loop err [] m = (None, m, [])"
| "refreshInner_loop err (Stop # evs) m = (Some ([], 0, err), m, evs)"
| "refreshInner_loop err (Done # evs) m = (Some ([], 0, Some ErrShutdown), m, evs)"
| "refreshInner_loop err (Tick # evs) m =
     (case RetrieveToken m of
        ((tok, expiresIn, rErr), m1) \<Rightarrow>
          (case rErr of
             Some e \<Rightarrow>
               refreshInner_loop rErr evs (Error ''Failed to refresh token. Retrying...'' m1)
           | None \<Rightarrow> (Some (tok, expiresIn, None), m1, evs)))"

text \<open>\<^verbatim>\<open>refreshInner\<close>, lines 192--217: \<^verbatim>\<open>err\<close> starts as nil.\<close>

definition refreshInner ::
  "backoff \<Rightarrow> event list \<Rightarrow> tokenRefresher \<Rightarrow>
     (string \<times> duration \<times> error option) option \<times> tokenRefresher \<times> event list" where
  "refreshInner b evs m = refreshInner_loop None evs m"

text \<open>
  What a call of \<^verbatim>\<open>refresh\<close> has come to: it has returned its pair, or it waits in a
  \<^verbatim>\<open>select\<close> of \<^verbatim>\<open>refreshInner\<close>, or it is blocked in \<^verbatim>\<open>m.mu.Lock()\<close>.
\<close>

datatype outcome = Returned duration "error option" | WaitSelect | WaitLock

text \<open>The deferred \<^verbatim>\<open>m.mu.Unlock()\<close>, run on return when the call has taken the lock.\<close>

definition deferred :: "bool \<Rightarrow> tokenRefresher \<Rightarrow> tokenRefresher" where
  "deferred locked m = (if locked then Unlock m else m)"

text \<open>
  Lines 175--182: the constant phase, always entered with the lock held, and the final
  store.
\<close>

definition refresh_constant :: "event list \<Rightarrow> tokenRefresher \<Rightarrow> outcome \<times> tokenRefresher" where
  "refresh_constant evs m =
     (case refreshInner (ConstantBackOff (1 * Minute)) evs m of
        (None, m1, _) \<Rightarrow> (WaitSelect, m1)
      | (Some (tok, expiresIn, err), m1, _) \<Rightarrow>
          if err = Some ErrShutdown then (Returned 0 err, Unlock m1)
          else (let m2 = setToken tok m1
                in (Returned (expiresIn - refreshBuffer m2) None, Unlock m2)))"

text \<open>
  Lines 161--182: the exponential phase and what follows it. \<open>forced\<close> is the argument
  \<^verbatim>\<open>force\<close> of \<^verbatim>\<open>refresh\<close>; in forced mode the lock is already held and its release
  deferred.
\<close>

definition refresh_backoff ::
  "bool \<Rightarrow> event list \<Rightarrow> tokenRefresher \<Rightarrow> outcome \<times> tokenRefresher" where
  "refresh_backoff forced evs m =
     (case refreshInner (ExponentialBackOff (refreshBuffer m - Second)) evs m of
        (None, m1, _) \<Rightarrow> (WaitSelect, m1)
      | (Some (tok, expiresIn, err), m1, evs1) \<Rightarrow>
          (case err of
             Some e \<Rightarrow>
               if e = ErrShutdown then (Returned 0 err, deferred forced m1)
               else if \<not> forced then
                 (case Lock m1 of
                    None \<Rightarrow> (WaitLock, m1)
                  | Some m2 \<Rightarrow>
                      refresh_constant evs1
                        (Crit ''Could not refresh token within refresh buffer. Stored token is now expired''
                           (setToken tok m2)))
               else refresh_constant evs1 m1
           | None \<Rightarrow>
               (let m2 = setToken tok m1
                in (Returned (expiresIn - refreshBuffer m2) None, deferred forced m2))))"

text \<open>\<^verbatim>\<open>refresh\<close>, lines 147--183; \<open>forced\<close> is its argument \<^verbatim>\<open>force\<close>.\<close>

definition refresh :: "bool \<Rightarrow> event list \<Rightarrow> tokenRefresher \<Rightarrow> outcome \<times> tokenRefresher" where
  "refresh forced evs m =
     (if forced then
        (case Lock m of
           None \<Rightarrow> (WaitLock, m)
         | Some m1 \<Rightarrow>
             (case RetrieveToken m1 of
                ((tok, expiresIn, err), m2) \<Rightarrow>
                  (let m3 = setToken tok m2
                   in if err = None then (Returned (expiresIn - refreshBuffer m3) None, Unlock m3)
                      else refresh_backoff True evs (Crit ''Force refresh failed'' m3))))
      else refresh_backoff False evs m)"

text \<open>The tests' \<^verbatim>\<open>mockRetriever\<close> with \<^verbatim>\<open>numFails\<close>, \<^verbatim>\<open>token\<close> and \<^verbatim>\<open>expiresIn\<close> set.\<close>

definition mockRetriever ::
  "nat \<Rightarrow> string \<Rightarrow> duration \<Rightarrow> nat \<Rightarrow> string \<times> duration \<times> error option" where
  "mockRetriever numFails tok expiresIn i =
     (if i < numFails then ([], 0, Some (ErrorNew ''There was an error''))
      else (tok, expiresIn, None))"

subsection \<open>Notions used in the properties\<close>

text \<open>No goroutine holds the lock, for writing or for reading.\<close>

definition unlocked :: "tokenRefresher \<Rightarrow> bool" where
  "unlocked m = (\<not> writer (mu m) \<and> readers (mu m) = 0)"

text \<open>A Retriever call has failed when the error of its triple is not nil.\<close>

definition failed :: "string \<times> duration \<times> error option \<Rightarrow> bool" where
  "failed r = (snd (snd r) \<noteq> None)"

text \<open>The state after a tick of \<^verbatim>\<open>refreshInner\<close> whose Retriever call failed (lines 202--206).\<close>

definition retry :: "tokenRefresher \<Rightarrow> tokenRefresher" where
  "retry m = Error ''Failed to refresh token. Retrying...'' (snd (RetrieveToken m))"

text \<open>How often a ticker channel is found closed in a list of \<^verbatim>\<open>select\<close> outcomes.\<close>

definition stops :: "event list \<Rightarrow> nat" where
  "stops evs = length (filter (\<lambda>ev. ev = Stop) evs)"

text \<open>
  What the backoff library promises of its tickers: a ticker ticks at least once before
  its channel is closed, and the ticker of a constant policy never closes its channel. In
  one call of \<^verbatim>\<open>refresh\<close> the first ticker is the exponential one and the second the
  constant one, so the first outcome is not \<open>Stop\<close> and \<open>Stop\<close> occurs at most once.
\<close>

definition ticker_ok :: "event list \<Rightarrow> bool" where
  "ticker_ok evs = (take 1 evs \<noteq> [Stop] \<and> stops evs \<le> 1)"

text \<open>
  Three refreshers of the tests: a token is cached, the refresh buffer is five minutes, and
  the Retriever succeeds at once, or fails three times first, or fails once first.
\<close>

definition timed_fixture :: tokenRefresher where
  "timed_fixture =
     (NewTokenRefresher (5 * Minute) (mockRetriever 0 ''newToken123'' (3600 * Second)))
       \<lparr>token := ''oldToken''\<rparr>"

definition failing_fixture :: tokenRefresher where
  "failing_fixture =
     (NewTokenRefresher (5 * Minute) (mockRetriever 3 ''newToken123'' (3600 * Second)))
       \<lparr>token := ''oldToken''\<rparr>"

definition expiring_fixture :: tokenRefresher where
  "expiring_fixture =
     (NewTokenRefresher (5 * Minute) (mockRetriever 1 ''newToken123'' (3600 * Second)))
       \<lparr>token := ''oldToken''\<rparr>"

text \<open>The only actions of the loop of \<^verbatim>\<open>refreshInner\<close>: Retriever calls and error log lines.\<close>

definition loop_actions :: "action set" where
  "loop_actions = {Act_RetrieveToken, Act_Error ''Failed to refresh token. Retrying...''}"

section \<open>Properties\<close>

subsection \<open>The loop of refreshInner\<close>

lemmas step_defs = act_def Lock_def Unlock_def RLock_def RUnlock_def Crit_def Error_def
  RetrieveToken_def setToken_def deferred_def

lemma loop_Tick_failed:
  "failed (retriever m (called m)) \<Longrightarrow>
     refreshInner_loop e (Tick # evs) m =
       refreshInner_loop (snd (snd (retriever m (called m)))) evs (retry m)"
  by (cases "retriever m (called m)") (auto simp: failed_def retry_def RetrieveToken_def)

lemma loop_Tick_ok:
  "\<not> failed (retriever m (called m)) \<Longrightarrow>
     refreshInner_loop e (Tick # evs) m = (Some (retriever m (called m)), snd (RetrieveToken m), evs)"
  by (cases "retriever m (called m)") (auto simp: failed_def RetrieveToken_def)

declare refreshInner_loop.simps(4) [simp del]

lemma retry_fields [simp]:
  "called (retry m) = Suc (called m)" "retriever (retry m) = retriever m"
  "token (retry m) = token m" "mu (retry m) = mu m" "refreshBuffer (retry m) = refreshBuffer m"
  by (simp_all add: retry_def step_defs)

lemma retry_frame: "retry m = m\<lparr>called := called (retry m), trace := trace (retry m)\<rparr>"
  by (simp add: retry_def step_defs)

lemma loop_frame:
  "refreshInner_loop e evs m = (r, m', rest) \<Longrightarrow>
     m' = m\<lparr>called := called m', trace := trace m'\<rparr> \<and> called m \<le> called m'"
proof (induction evs arbitrary: e m)
  case Nil
  then show ?case by simp
next
  case (Cons ev evs)
  show ?case
  proof (cases ev)
    case Tick
    show ?thesis
    proof (cases "failed (retriever m (called m))")
      case True
      with Cons.prems Tick
      have "refreshInner_loop (snd (snd (retriever m (called m)))) evs (retry m) = (r, m', rest)"
        by (simp add: loop_Tick_failed)
      from Cons.IH [OF this]
      have "m' = (retry m)\<lparr>called := called m', trace := trace m'\<rparr>" and "Suc (called m) \<le> called m'"
        by simp_all
      then show ?thesis
        by (simp_all add: retry_def step_defs)
    next
      case False
      with Cons.prems Tick show ?thesis
        by (auto simp: loop_Tick_ok step_defs)
    qed
  next
    case Stop
    with Cons.prems show ?thesis by auto
  next
    case Done
    with Cons.prems show ?thesis by auto
  qed
qed


lemma loop_success:
  "refreshInner_loop e evs m = (Some (tok, x, None), m', rest) \<Longrightarrow>
     (called m < called m' \<and> retriever m (called m' - 1) = (tok, x, None))
     \<or> (e = None \<and> (\<exists>r. evs = Stop # r))"
proof (induction evs arbitrary: e m)
  case Nil
  then show ?case by simp
next
  case (Cons ev evs)
  show ?case
  proof (cases ev)
    case Tick
    show ?thesis
    proof (cases "failed (retriever m (called m))")
      case True
      with Cons.prems Tick
      have run: "refreshInner_loop (snd (snd (retriever m (called m)))) evs (retry m)
                   = (Some (tok, x, None), m', rest)"
        by (simp add: loop_Tick_failed)
      from True have "snd (snd (retriever m (called m))) \<noteq> None"
        by (simp add: failed_def)
      with Cons.IH [OF run] show ?thesis by auto
    next
      case False
      with Cons.prems Tick show ?thesis
        by (auto simp: loop_Tick_ok step_defs)
    qed
  next
    case Stop
    with Cons.prems show ?thesis by auto
  next
    case Done
    with Cons.prems show ?thesis by auto
  qed
qed

lemma loop_error:
  "refreshInner_loop e evs m = (Some (tok, x, Some e'), m', rest) \<Longrightarrow>
     tok = [] \<and> x = 0 \<and> (e' = ErrShutdown \<or> stops rest < stops evs)"
proof (induction evs arbitrary: e m)
  case Nil
  then show ?case by simp
next
  case (Cons ev evs)
  show ?case
  proof (cases ev)
    case Tick
    show ?thesis
    proof (cases "failed (retriever m (called m))")
      case True
      with Cons.prems Tick
      have "refreshInner_loop (snd (snd (retriever m (called m)))) evs (retry m)
              = (Some (tok, x, Some e'), m', rest)"
        by (simp add: loop_Tick_failed)
      from Cons.IH [OF this] Tick show ?thesis by (auto simp: stops_def)
    next
      case False
      with Cons.prems Tick show ?thesis
        by (auto simp: loop_Tick_ok failed_def)
    qed
  next
    case Stop
    have "stops evs < stops (Stop # evs)" by (simp add: stops_def)
    moreover have "stops rest \<le> stops evs" using Cons.prems Stop by auto
    ultimately show ?thesis using Cons.prems Stop by auto
  next
    case Done
    with Cons.prems show ?thesis by auto
  qed
qed

lemma loop_calls:
  "refreshInner_loop e evs m = (r, m', rest) \<Longrightarrow> called m \<le> i \<Longrightarrow> i < called m' \<Longrightarrow>
     \<not> failed (retriever m i) \<Longrightarrow> Suc i = called m' \<and> r = Some (retriever m i)"
proof (induction evs arbitrary: e m)
  case Nil
  then show ?case by simp
next
  case (Cons ev evs)
  show ?case
  proof (cases ev)
    case Tick
    show ?thesis
    proof (cases "failed (retriever m (called m))")
      case True
      with Cons.prems Tick
      have run: "refreshInner_loop (snd (snd (retriever m (called m)))) evs (retry m) = (r, m', rest)"
        by (simp add: loop_Tick_failed)
      from True Cons.prems have "i \<noteq> called m" by auto
      with Cons.prems have "called (retry m) \<le> i" by simp
      from Cons.IH [OF run this] Cons.prems show ?thesis by simp
    next
      case False
      with Cons.prems Tick have "called m' = Suc (called m)" and "r = Some (retriever m (called m))"
        by (auto simp: loop_Tick_ok step_defs)
      moreover from this Cons.prems have "i = called m" by simp
      ultimately show ?thesis by simp
    qed
  next
    case Stop
    with Cons.prems show ?thesis by auto
  next
    case Done
    with Cons.prems show ?thesis by auto
  qed
qed

lemma loop_pending:
  "refreshInner_loop e evs m = (None, m', rest) \<Longrightarrow>
     rest = [] \<and> refreshInner_loop e (evs @ [Done]) m = (Some ([], 0, Some ErrShutdown), m', [])"
proof (induction evs arbitrary: e m)
  case Nil
  then show ?case by simp
next
  case (Cons ev evs)
  show ?case
  proof (cases ev)
    case Tick
    show ?thesis
    proof (cases "failed (retriever m (called m))")
      case True
      with Cons.prems Tick
      have "refreshInner_loop (snd (snd (retriever m (called m)))) evs (retry m) = (None, m', rest)"
        by (simp add: loop_Tick_failed)
      from Cons.IH [OF this] True Tick show ?thesis by (simp add: loop_Tick_failed)
    next
      case False
      with Cons.prems Tick show ?thesis
        by (simp add: loop_Tick_ok)
    qed
  next
    case Stop
    with Cons.prems show ?thesis by auto
  next
    case Done
    with Cons.prems show ?thesis by auto
  qed
qed

lemma loop_append:
  "refreshInner_loop e evs m = (Some q, m', rest) \<Longrightarrow>
     refreshInner_loop e (evs @ ys) m = (Some q, m', rest @ ys)"
proof (induction evs arbitrary: e m)
  case Nil
  then show ?case by simp
next
  case (Cons ev evs)
  show ?case
  proof (cases ev)
    case Tick
    show ?thesis
    proof (cases "failed (retriever m (called m))")
      case True
      with Cons.prems Tick
      have "refreshInner_loop (snd (snd (retriever m (called m)))) evs (retry m) = (Some q, m', rest)"
        by (simp add: loop_Tick_failed)
      from Cons.IH [OF this] True Tick show ?thesis by (simp add: loop_Tick_failed)
    next
      case False
      with Cons.prems Tick show ?thesis
        by (simp add: loop_Tick_ok)
    qed
  next
    case Stop
    with Cons.prems show ?thesis by auto
  next
    case Done
    with Cons.prems show ?thesis by auto
  qed
qed

lemma loop_failing_ticks:
  "(\<forall>i<j. failed (retriever m (called m + i))) \<Longrightarrow>
     \<exists>m1. refreshInner_loop e (replicate j Tick @ evs) m =
             refreshInner_loop (if j = 0 then e else snd (snd (retriever m (called m + j - 1)))) evs m1
         \<and> called m1 = called m + j \<and> m1 = m\<lparr>called := called m1, trace := trace m1\<rparr>"
proof (induction j arbitrary: e m)
  case 0
  have "refreshInner_loop e (replicate 0 Tick @ evs) m = refreshInner_loop e evs m
          \<and> called m = called m + 0 \<and> m = m\<lparr>called := called m, trace := trace m\<rparr>"
    by simp
  then show ?case by (intro exI [of _ m]) simp
next
  case (Suc j)
  from Suc.prems have f0: "failed (retriever m (called m))"
    by (metis add.right_neutral zero_less_Suc)
  from Suc.prems have "\<forall>i<j. failed (retriever (retry m) (called (retry m) + i))"
    by (metis Suc_less_eq add_Suc_shift retry_fields(1,2))
  from Suc.IH [OF this, of "snd (snd (retriever m (called m)))"]
  obtain m1 where
    run: "refreshInner_loop (snd (snd (retriever m (called m)))) (replicate j Tick @ evs) (retry m) =
            refreshInner_loop (if j = 0 then snd (snd (retriever m (called m)))
                               else snd (snd (retriever (retry m) (called (retry m) + j - 1)))) evs m1"
    and c: "called m1 = called (retry m) + j"
    and fr: "m1 = (retry m)\<lparr>called := called m1, trace := trace m1\<rparr>"
    by blast
  have "refreshInner_loop e (replicate (Suc j) Tick @ evs) m =
          refreshInner_loop (snd (snd (retriever m (called m + Suc j - 1)))) evs m1"
    using run f0 by (cases j) (simp_all add: loop_Tick_failed)
  moreover have "called m1 = called m + Suc j" using c by simp
  moreover have "m1 = m\<lparr>called := called m1, trace := trace m1\<rparr>"
    using fr by (simp add: retry_def step_defs)
  ultimately show ?case by auto
qed

subsection \<open>The phases of refresh\<close>

lemma loop_rest_pending: "refreshInner_loop e evs m = (None, m1, rest) \<Longrightarrow> rest = []"
  by (simp add: loop_pending)

lemma refresh_constant_cases:
  obtains
    (wait) m1 where "refreshInner_loop None evs m = (None, m1, [])"
      and "refresh_constant evs m = (WaitSelect, m1)"
  | (shutdown) tok x m1 rest where
      "refreshInner_loop None evs m = (Some (tok, x, Some ErrShutdown), m1, rest)"
      and "refresh_constant evs m = (Returned 0 (Some ErrShutdown), Unlock m1)"
  | (store) tok x err m1 rest where
      "refreshInner_loop None evs m = (Some (tok, x, err), m1, rest)"
      and "err \<noteq> Some ErrShutdown"
      and "refresh_constant evs m =
             (Returned (x - refreshBuffer m1) None, Unlock (setToken tok m1))"
proof -
  obtain r m1 rest where run: "refreshInner_loop None evs m = (r, m1, rest)"
    by (cases "refreshInner_loop None evs m") auto
  show thesis
  proof (cases r)
    case None
    with run have "rest = []" by (simp add: loop_rest_pending)
    with run None show thesis
      by (intro wait [of m1]) (simp_all add: refresh_constant_def refreshInner_def)
  next
    case (Some q)
    obtain tok x err where q: "q = (tok, x, err)" by (cases q) auto
    show thesis
    proof (cases "err = Some ErrShutdown")
      case True
      with run Some q show thesis
        by (intro shutdown [of tok x m1 rest]) (simp_all add: refresh_constant_def refreshInner_def)
    next
      case False
      with run Some q show thesis
        by (intro store [of tok x err m1 rest])
           (simp_all add: refresh_constant_def refreshInner_def setToken_def act_def)
    qed
  qed
qed

lemma refresh_backoff_cases:
  obtains
    (wait) m1 where "refreshInner_loop None evs m = (None, m1, [])"
      and "refresh_backoff forced evs m = (WaitSelect, m1)"
  | (success) tok x m1 rest where
      "refreshInner_loop None evs m = (Some (tok, x, None), m1, rest)"
      and "refresh_backoff forced evs m =
             (Returned (x - refreshBuffer m1) None, deferred forced (setToken tok m1))"
  | (shutdown) tok x m1 rest where
      "refreshInner_loop None evs m = (Some (tok, x, Some ErrShutdown), m1, rest)"
      and "refresh_backoff forced evs m = (Returned 0 (Some ErrShutdown), deferred forced m1)"
  | (expired) tok x e m1 rest m2 where
      "refreshInner_loop None evs m = (Some (tok, x, Some e), m1, rest)"
      and "e \<noteq> ErrShutdown" and "\<not> forced" and "Lock m1 = Some m2"
      and "refresh_backoff forced evs m =
             refresh_constant rest
               (Crit ''Could not refresh token within refresh buffer. Stored token is now expired''
                  (setToken tok m2))"
  | (locked_out) tok x e m1 rest where
      "refreshInner_loop None evs m = (Some (tok, x, Some e), m1, rest)"
      and "e \<noteq> ErrShutdown" and "\<not> forced" and "Lock m1 = None"
      and "refresh_backoff forced evs m = (WaitLock, m1)"
  | (held) tok x e m1 rest where
      "refreshInner_loop None evs m = (Some (tok, x, Some e), m1, rest)"
      and "e \<noteq> ErrShutdown" and "forced"
      and "refresh_backoff forced evs m = refresh_constant rest m1"
proof -
  obtain r m1 rest where run: "refreshInner_loop None evs m = (r, m1, rest)"
    by (cases "refreshInner_loop None evs m") auto
  show thesis
  proof (cases r)
    case None
    with run have "rest = []" by (simp add: loop_rest_pending)
    with run None show thesis
      by (intro wait [of m1]) (simp_all add: refresh_backoff_def refreshInner_def)
  next
    case (Some q)
    obtain tok x err where q: "q = (tok, x, err)" by (cases q) auto
    show thesis
    proof (cases err)
      case None
      with run Some q show thesis
        by (intro success [of tok x m1 rest])
           (simp_all add: refresh_backoff_def refreshInner_def setToken_def act_def)
    next
      case (Some e)
      note e = this
      show thesis
      proof (cases "e = ErrShutdown")
        case True
        with run \<open>r = Some q\<close> q e show thesis
          by (intro shutdown [of tok x m1 rest]) (simp_all add: refresh_backoff_def refreshInner_def)
      next
        case False
        show thesis
        proof (cases forced)
          case True
          with False run \<open>r = Some q\<close> q e show thesis
            by (intro held [of tok x e m1 rest]) (simp_all add: refresh_backoff_def refreshInner_def)
        next
          case nf: False
          show thesis
          proof (cases "Lock m1")
            case None
            with nf False run \<open>r = Some q\<close> q e show thesis
              by (intro locked_out [of tok x e m1 rest]) (simp_all add: refresh_backoff_def refreshInner_def)
          next
            case (Some m2)
            with nf False run \<open>r = Some q\<close> q e show thesis
              by (intro expired [of tok x e m1 rest m2]) (simp_all add: refresh_backoff_def refreshInner_def)
          qed
        qed
      qed
    qed
  qed
qed

lemma refresh_cases:
  obtains
    (timed) "\<not> forced" and "refresh forced evs m = refresh_backoff False evs m"
  | (blocked) "forced" and "Lock m = None" and "refresh forced evs m = (WaitLock, m)"
  | (first) m1 tok x where "forced" and "Lock m = Some m1"
      and "retriever m (called m) = (tok, x, None)"
      and "refresh forced evs m =
             (Returned (x - refreshBuffer m) None, Unlock (setToken tok (snd (RetrieveToken m1))))"
  | (again) m1 tok x e where "forced" and "Lock m = Some m1"
      and "retriever m (called m) = (tok, x, Some e)"
      and "refresh forced evs m =
             refresh_backoff True evs
               (Crit ''Force refresh failed'' (setToken tok (snd (RetrieveToken m1))))"
proof (cases forced)
  case False
  then show thesis by (intro timed) (simp_all add: refresh_def)
next
  case True
  show thesis
  proof (cases "Lock m")
    case None
    with True show thesis by (intro blocked) (simp_all add: refresh_def)
  next
    case (Some m1)
    then have m1: "retriever m1 = retriever m" "called m1 = called m" "refreshBuffer m1 = refreshBuffer m"
      by (auto simp: Lock_def act_def split: if_splits)
    obtain tok x err where ret: "retriever m (called m) = (tok, x, err)"
      by (cases "retriever m (called m)") auto
    show thesis
    proof (cases err)
      case None
      with True Some ret m1 show thesis
        by (intro first [of m1 tok x]) (simp_all add: refresh_def RetrieveToken_def setToken_def act_def)
    next
      case (Some e)
      with True \<open>Lock m = Some m1\<close> ret m1 show thesis
        by (intro again [of m1 tok x e]) (simp_all add: refresh_def RetrieveToken_def)
    qed
  qed
qed


lemma loop_fields:
  assumes "refreshInner_loop e evs m = (r, m', rest)"
  shows "retriever m' = retriever m" and "refreshBuffer m' = refreshBuffer m"
    and "token m' = token m" and "mu m' = mu m" and "called m \<le> called m'"
proof -
  from loop_frame [OF assms]
  have eq: "m' = m\<lparr>called := called m', trace := trace m'\<rparr>" and le: "called m \<le> called m'"
    by simp_all
  from eq have "retriever m' = retriever (m\<lparr>called := called m', trace := trace m'\<rparr>)"
    by (rule arg_cong)
  then show "retriever m' = retriever m" by simp
  from eq have "refreshBuffer m' = refreshBuffer (m\<lparr>called := called m', trace := trace m'\<rparr>)"
    by (rule arg_cong)
  then show "refreshBuffer m' = refreshBuffer m" by simp
  from eq have "token m' = token (m\<lparr>called := called m', trace := trace m'\<rparr>)"
    by (rule arg_cong)
  then show "token m' = token m" by simp
  from eq have "mu m' = mu (m\<lparr>called := called m', trace := trace m'\<rparr>)"
    by (rule arg_cong)
  then show "mu m' = mu m" by simp
  from le show "called m \<le> called m'" .
qed

lemma Lock_fields:
  assumes "Lock m = Some m1"
  shows "retriever m1 = retriever m" and "refreshBuffer m1 = refreshBuffer m"
    and "token m1 = token m" and "called m1 = called m"
    and "writer (mu m1)" and "readers (mu m1) = 0" and "unlocked m"
    and "trace m1 = trace m @ [Act_Lock]"
  using assms by (auto simp: Lock_def act_def unlocked_def split: if_splits)

lemma Lock_unlocked: "unlocked m \<Longrightarrow> Lock m = Some (act Act_Lock (m\<lparr>mu := (mu m)\<lparr>writer := True\<rparr>\<rparr>))"
  by (simp add: Lock_def unlocked_def)

lemma loop_calls_failed:
  assumes "refreshInner_loop e evs m = (r, m', rest)"
    and "r = None \<or> (\<exists>tok x e'. r = Some (tok, x, Some e'))"
    and "called m \<le> i" and "i < called m'"
  shows "failed (retriever m i)"
proof (rule ccontr)
  assume nf: "\<not> failed (retriever m i)"
  from loop_calls [OF assms(1,3,4) nf] have "r = Some (retriever m i)" by simp
  with assms(2) obtain tok x e' where "retriever m i = (tok, x, Some e')" by auto
  with nf show False by (simp add: failed_def)
qed

lemma refresh_constant_calls:
  assumes "refresh_constant evs m = (out, m')"
    and "called m \<le> i" and "i < called m'" and "\<not> failed (retriever m i)"
  shows "out = Returned (fst (snd (retriever m i)) - refreshBuffer m) None
       \<and> token m' = fst (retriever m i) \<and> called m' = Suc i"
proof (cases evs m rule: refresh_constant_cases)
  case (wait m1)
  with assms(1) have "m' = m1" by simp
  with loop_calls_failed [OF wait(1) _ assms(2)] assms(3,4) show ?thesis by simp
next
  case (shutdown tok x m1 rest)
  with assms(1) have "called m' = called m1" by (auto simp: step_defs)
  with loop_calls_failed [OF shutdown(1) _ assms(2)] assms(3,4) show ?thesis by simp
next
  case (store tok x err m1 rest)
  with assms(1) have m': "called m' = called m1" "token m' = tok"
    and out: "out = Returned (x - refreshBuffer m1) None"
    by (auto simp: step_defs)
  from loop_calls [OF store(1) assms(2) _ assms(4)] assms(3) m'
  have "Suc i = called m1" and "retriever m i = (tok, x, err)" by auto
  with m' out loop_fields(2) [OF store(1)] show ?thesis by simp
qed

lemma refresh_backoff_calls:
  assumes "refresh_backoff forced evs m = (out, m')"
    and "called m \<le> i" and "i < called m'" and "\<not> failed (retriever m i)"
  shows "out = Returned (fst (snd (retriever m i)) - refreshBuffer m) None
       \<and> token m' = fst (retriever m i) \<and> called m' = Suc i"
proof (cases forced evs m rule: refresh_backoff_cases)
  case (wait m1)
  with assms(1) have "m' = m1" by simp
  with loop_calls_failed [OF wait(1) _ assms(2)] assms(3,4) show ?thesis by simp
next
  case (success tok x m1 rest)
  with assms(1) have m': "called m' = called m1" "token m' = tok"
    and out: "out = Returned (x - refreshBuffer m1) None"
    by (auto simp: step_defs)
  from loop_calls [OF success(1) assms(2) _ assms(4)] assms(3) m'
  have "Suc i = called m1" and "retriever m i = (tok, x, None)" by auto
  with m' out loop_fields(2) [OF success(1)] show ?thesis by simp
next
  case (shutdown tok x m1 rest)
  with assms(1) have "called m' = called m1" by (auto simp: step_defs)
  with loop_calls_failed [OF shutdown(1) _ assms(2)] assms(3,4) show ?thesis by simp
next
  case (expired tok x e m1 rest m2)
  let ?m3 = "Crit ''Could not refresh token within refresh buffer. Stored token is now expired''
               (setToken tok m2)"
  have m3: "retriever ?m3 = retriever m" "refreshBuffer ?m3 = refreshBuffer m"
    "called ?m3 = called m1"
    using Lock_fields [OF expired(4)] loop_fields [OF expired(1)] by (simp_all add: step_defs)
  have "called m1 \<le> i"
  proof (rule ccontr)
    assume "\<not> called m1 \<le> i"
    then have "i < called m1" by simp
    from loop_calls_failed [OF expired(1) _ assms(2) this] assms(4) show False by simp
  qed
  with refresh_constant_calls [of rest ?m3 out m' i] assms expired(5) m3 show ?thesis by simp
next
  case (locked_out tok x e m1 rest)
  with assms(1) have "m' = m1" by simp
  with loop_calls_failed [OF locked_out(1) _ assms(2)] assms(3,4) show ?thesis by simp
next
  case (held tok x e m1 rest)
  have m1: "retriever m1 = retriever m" "refreshBuffer m1 = refreshBuffer m"
    using loop_fields [OF held(1)] by simp_all
  have "called m1 \<le> i"
  proof (rule ccontr)
    assume "\<not> called m1 \<le> i"
    then have "i < called m1" by simp
    from loop_calls_failed [OF held(1) _ assms(2) this] assms(4) show False by simp
  qed
  with refresh_constant_calls [of rest m1 out m' i] assms held(4) m1 show ?thesis by simp
qed

lemma refresh_calls:
  assumes "refresh forced evs m = (out, m')"
    and "called m \<le> i" and "i < called m'" and "\<not> failed (retriever m i)"
  shows "out = Returned (fst (snd (retriever m i)) - refreshBuffer m) None
       \<and> token m' = fst (retriever m i) \<and> called m' = Suc i"
proof (cases forced evs m rule: refresh_cases)
  case timed
  with refresh_backoff_calls [of False evs m out m' i] assms show ?thesis by simp
next
  case blocked
  with assms show ?thesis by simp
next
  case (first m1 tok x)
  with assms(1) Lock_fields [OF first(2)]
  have "called m' = Suc (called m)" "token m' = tok" "out = Returned (x - refreshBuffer m) None"
    by (auto simp: step_defs)
  moreover from this assms(2,3) have "i = called m" by simp
  ultimately show ?thesis using first(3) by simp
next
  case (again m1 tok x e)
  let ?m3 = "Crit ''Force refresh failed'' (setToken tok (snd (RetrieveToken m1)))"
  have m3: "retriever ?m3 = retriever m" "refreshBuffer ?m3 = refreshBuffer m"
    "called ?m3 = Suc (called m)"
    using Lock_fields [OF again(2)] by (simp_all add: step_defs)
  from again(3) assms(4) have "i \<noteq> called m" by (auto simp: failed_def)
  with assms(2) have "Suc (called m) \<le> i" by simp
  with refresh_backoff_calls [of True evs ?m3 out m' i] assms again(4) m3 show ?thesis by simp
qed

lemma stops_zero: "stops evs = 0 \<Longrightarrow> evs \<noteq> Stop # r"
  by (auto simp: stops_def)

lemma ticker_ok_first: "ticker_ok evs \<Longrightarrow> evs \<noteq> Stop # r"
  by (auto simp: ticker_ok_def)

lemma refresh_constant_last:
  assumes "refresh_constant evs m = (Returned d None, m')" and "stops evs = 0"
  shows "called m < called m' \<and> \<not> failed (retriever m (called m' - 1))"
proof (cases evs m rule: refresh_constant_cases)
  case (wait m1)
  with assms show ?thesis by simp
next
  case (shutdown tok x m1 rest)
  with assms show ?thesis by simp
next
  case (store tok x err m1 rest)
  with assms(1) have c: "called m' = called m1" by (auto simp: step_defs)
  show ?thesis
  proof (cases err)
    case None
    with loop_success [of None evs m tok x m1 rest] store(1) stops_zero [OF assms(2)] c
    show ?thesis by (auto simp: failed_def)
  next
    case (Some e)
    with store(2) have "e \<noteq> ErrShutdown" by simp
    with loop_error [of None evs m tok x e m1 rest] store(1) Some assms(2)
    show ?thesis by simp
  qed
qed

lemma refresh_backoff_last:
  assumes "refresh_backoff forced evs m = (Returned d None, m')" and "ticker_ok evs"
  shows "called m < called m' \<and> \<not> failed (retriever m (called m' - 1))"
proof (cases forced evs m rule: refresh_backoff_cases)
  case (wait m1)
  with assms show ?thesis by simp
next
  case (success tok x m1 rest)
  with assms(1) have c: "called m' = called m1" by (auto simp: step_defs)
  with loop_success [of None evs m tok x m1 rest] success(1) ticker_ok_first [OF assms(2)]
  show ?thesis by (auto simp: failed_def)
next
  case (shutdown tok x m1 rest)
  with assms show ?thesis by simp
next
  case (expired tok x e m1 rest m2)
  let ?m3 = "Crit ''Could not refresh token within refresh buffer. Stored token is now expired''
               (setToken tok m2)"
  have m3: "retriever ?m3 = retriever m" "called ?m3 = called m1"
    using Lock_fields [OF expired(4)] loop_fields [OF expired(1)] by (simp_all add: step_defs)
  from loop_error [OF expired(1)] expired(2) assms(2) have "stops rest = 0"
    by (simp add: ticker_ok_def)
  from refresh_constant_last [OF _ this, of ?m3 d m'] assms(1) expired(5) m3
    loop_fields(5) [OF expired(1)]
  show ?thesis by simp
next
  case (locked_out tok x e m1 rest)
  with assms show ?thesis by simp
next
  case (held tok x e m1 rest)
  from loop_error [OF held(1)] held(2) assms(2) have "stops rest = 0"
    by (simp add: ticker_ok_def)
  from refresh_constant_last [OF _ this, of m1 d m'] assms(1) held(4) loop_fields [OF held(1)]
  show ?thesis by simp
qed

lemma refresh_last:
  assumes "refresh forced evs m = (Returned d None, m')" and "ticker_ok evs"
  shows "called m < called m' \<and> \<not> failed (retriever m (called m' - 1))"
proof (cases forced evs m rule: refresh_cases)
  case timed
  with refresh_backoff_last [of False evs m d m'] assms show ?thesis by simp
next
  case blocked
  with assms show ?thesis by simp
next
  case (first m1 tok x)
  with assms(1) Lock_fields [OF first(2)] have "called m' = Suc (called m)"
    by (auto simp: step_defs)
  with first(3) show ?thesis by (simp add: failed_def)
next
  case (again m1 tok x e)
  let ?m3 = "Crit ''Force refresh failed'' (setToken tok (snd (RetrieveToken m1)))"
  have m3: "retriever ?m3 = retriever m" "called ?m3 = Suc (called m)"
    using Lock_fields [OF again(2)] by (simp_all add: step_defs)
  with refresh_backoff_last [of True evs ?m3 d m'] assms again(4) show ?thesis by simp
qed

lemma refresh_returned_error:
  assumes "refresh forced evs m = (Returned d (Some e), m')"
  shows "e = ErrShutdown \<and> d = 0"
proof -
  have rc: "\<And>evs m. refresh_constant evs m = (Returned d (Some e), m') \<Longrightarrow> e = ErrShutdown \<and> d = 0"
  proof -
    fix evs m assume a: "refresh_constant evs m = (Returned d (Some e), m')"
    show "e = ErrShutdown \<and> d = 0"
      by (cases evs m rule: refresh_constant_cases) (use a in auto)
  qed
  have rb: "\<And>f evs m. refresh_backoff f evs m = (Returned d (Some e), m') \<Longrightarrow> e = ErrShutdown \<and> d = 0"
  proof -
    fix f evs m assume a: "refresh_backoff f evs m = (Returned d (Some e), m')"
    show "e = ErrShutdown \<and> d = 0"
      by (cases f evs m rule: refresh_backoff_cases) (use a rc in auto)
  qed
  show ?thesis
    by (cases forced evs m rule: refresh_cases) (use assms rb in auto)
qed

lemma refresh_constant_not_WaitLock: "fst (refresh_constant evs m) \<noteq> WaitLock"
  by (cases evs m rule: refresh_constant_cases) auto

lemma refresh_backoff_WaitLock:
  assumes "refresh_backoff forced evs m = (WaitLock, m')"
  shows "\<not> forced \<and> \<not> unlocked m"
proof (cases forced evs m rule: refresh_backoff_cases)
  case (expired tok x e m1 rest m2)
  with assms refresh_constant_not_WaitLock show ?thesis by (metis fst_conv)
next
  case (locked_out tok x e m1 rest)
  from locked_out(4) have "\<not> unlocked m1" by (auto simp: Lock_def unlocked_def split: if_splits)
  with loop_fields(4) [OF locked_out(1)] locked_out(3) show ?thesis by (simp add: unlocked_def)
next
  case (held tok x e m1 rest)
  with assms refresh_constant_not_WaitLock show ?thesis by (metis fst_conv)
qed (use assms in auto)

lemma refresh_WaitLock:
  assumes "refresh forced evs m = (WaitLock, m')"
  shows "\<not> unlocked m"
proof (cases forced evs m rule: refresh_cases)
  case timed
  with assms have "refresh_backoff False evs m = (WaitLock, m')" by simp
  from refresh_backoff_WaitLock [OF this] show ?thesis by simp
next
  case blocked
  then show ?thesis by (auto simp: Lock_def unlocked_def split: if_splits)
next
  case (first m1 tok x)
  with assms show ?thesis by simp
next
  case (again m1 tok x e)
  with assms have "refresh_backoff True evs
      (Crit ''Force refresh failed'' (setToken tok (snd (RetrieveToken m1)))) = (WaitLock, m')"
    by simp
  from refresh_backoff_WaitLock [OF this] show ?thesis by simp
qed

lemma refresh_constant_shutdown:
  assumes "refresh_constant evs m = (WaitSelect, m1)"
  shows "refresh_constant (evs @ [Done]) m = (Returned 0 (Some ErrShutdown), Unlock m1)"
proof (cases evs m rule: refresh_constant_cases)
  case (wait m2)
  with assms have "m2 = m1" by simp
  with loop_pending [OF wait(1)] show ?thesis
    by (simp add: refresh_constant_def refreshInner_def)
qed (use assms in auto)

lemma refresh_backoff_shutdown:
  assumes "refresh_backoff forced evs m = (WaitSelect, m1)"
  shows "refresh_backoff forced (evs @ [Done]) m = (Returned 0 (Some ErrShutdown), m1)
       \<or> refresh_backoff forced (evs @ [Done]) m = (Returned 0 (Some ErrShutdown), Unlock m1)"
proof (cases forced evs m rule: refresh_backoff_cases)
  case (wait m2)
  with assms have "m2 = m1" by simp
  with loop_pending [OF wait(1)] show ?thesis
    by (simp add: refresh_backoff_def refreshInner_def deferred_def)
next
  case (expired tok x e m2 rest m3)
  from loop_append [OF expired(1), of "[Done]"] expired(2,3,4)
  have "refresh_backoff forced (evs @ [Done]) m =
          refresh_constant (rest @ [Done])
            (Crit ''Could not refresh token within refresh buffer. Stored token is now expired''
               (setToken tok m3))"
    by (simp add: refresh_backoff_def refreshInner_def)
  with refresh_constant_shutdown [of rest _ m1] assms expired(5) show ?thesis by simp
next
  case (held tok x e m2 rest)
  from loop_append [OF held(1), of "[Done]"] held(2,3)
  have "refresh_backoff forced (evs @ [Done]) m = refresh_constant (rest @ [Done]) m2"
    by (simp add: refresh_backoff_def refreshInner_def)
  with refresh_constant_shutdown [of rest _ m1] assms held(4) show ?thesis by simp
qed (use assms in auto)

lemma refresh_shutdown:
  assumes "refresh forced evs m = (WaitSelect, m1)"
  shows "refresh forced (evs @ [Done]) m = (Returned 0 (Some ErrShutdown), m1)
       \<or> refresh forced (evs @ [Done]) m = (Returned 0 (Some ErrShutdown), Unlock m1)"
proof (cases forced evs m rule: refresh_cases)
  case timed
  with assms have "refresh_backoff False evs m = (WaitSelect, m1)" by simp
  from refresh_backoff_shutdown [OF this] timed(1) show ?thesis by (simp add: refresh_def)
next
  case blocked
  with assms show ?thesis by simp
next
  case (first m2 tok x)
  with assms show ?thesis by simp
next
  case (again m2 tok x e)
  let ?m3 = "Crit ''Force refresh failed'' (setToken tok (snd (RetrieveToken m2)))"
  from again assms have "refresh_backoff True evs ?m3 = (WaitSelect, m1)" by simp
  moreover have "refresh forced (evs @ [Done]) m = refresh_backoff True (evs @ [Done]) ?m3"
    using again(1,2,3) Lock_fields [OF again(2)] by (simp add: refresh_def RetrieveToken_def)
  ultimately show ?thesis using refresh_backoff_shutdown [of True evs ?m3 m1] by simp
qed

lemmas eval_defs = refresh_def refresh_backoff_def refresh_constant_def refreshInner_def
  refreshInner_loop.simps step_defs NewTokenRefresher_def mockRetriever_def

lemma refresh_constant_returned_unlocked:
  assumes "refresh_constant evs m = (Returned d err, m')" and "readers (mu m) = 0"
  shows "unlocked m'"
proof (cases evs m rule: refresh_constant_cases)
  case (wait m1)
  with assms show ?thesis by simp
next
  case (shutdown tok x m1 rest)
  with assms loop_fields(4) [OF shutdown(1)] show ?thesis
    by (auto simp: step_defs unlocked_def)
next
  case (store tok x err m1 rest)
  with assms loop_fields(4) [OF store(1)] show ?thesis
    by (auto simp: step_defs unlocked_def)
qed

lemma refresh_backoff_returned_unlocked:
  assumes "refresh_backoff forced evs m = (Returned d err, m')"
    and "readers (mu m) = 0" and "forced \<or> \<not> writer (mu m)"
  shows "unlocked m'"
proof (cases forced evs m rule: refresh_backoff_cases)
  case (wait m1)
  with assms show ?thesis by simp
next
  case (success tok x m1 rest)
  with assms loop_fields(4) [OF success(1)] show ?thesis
    by (cases forced) (auto simp: step_defs unlocked_def)
next
  case (shutdown tok x m1 rest)
  with assms loop_fields(4) [OF shutdown(1)] show ?thesis
    by (cases forced) (auto simp: step_defs unlocked_def)
next
  case (expired tok x e m1 rest m2)
  let ?m3 = "Crit ''Could not refresh token within refresh buffer. Stored token is now expired''
               (setToken tok m2)"
  have "readers (mu ?m3) = 0" using Lock_fields [OF expired(4)] by (simp add: step_defs)
  from refresh_constant_returned_unlocked [OF _ this, of rest d err m'] assms(1) expired(5)
  show ?thesis by simp
next
  case (locked_out tok x e m1 rest)
  with assms show ?thesis by simp
next
  case (held tok x e m1 rest)
  have "readers (mu m1) = 0" using loop_fields(4) [OF held(1)] assms(2) by simp
  from refresh_constant_returned_unlocked [OF _ this, of rest d err m'] assms(1) held(4)
  show ?thesis by simp
qed

lemma refresh_returned_unlocked:
  assumes "refresh forced evs m = (Returned d err, m')" and "unlocked m"
  shows "unlocked m'"
proof (cases forced evs m rule: refresh_cases)
  case timed
  with refresh_backoff_returned_unlocked [of False evs m d err m'] assms show ?thesis
    by (simp add: unlocked_def)
next
  case blocked
  with assms show ?thesis by simp
next
  case (first m1 tok x)
  with assms(1) Lock_fields [OF first(2)] show ?thesis
    by (auto simp: step_defs unlocked_def)
next
  case (again m1 tok x e)
  let ?m3 = "Crit ''Force refresh failed'' (setToken tok (snd (RetrieveToken m1)))"
  have "readers (mu ?m3) = 0" using Lock_fields [OF again(2)] by (simp add: step_defs)
  from refresh_backoff_returned_unlocked [OF _ this, of True evs d err m'] assms(1) again(4)
  show ?thesis by simp
qed

lemma Unlock_token: "token (Unlock m) = token m"
  by (simp add: step_defs)


lemma replicate_split:
  assumes "a < n"
  shows "replicate n x = replicate a x @ x # replicate (n - Suc a) x"
proof -
  from assms have "n = a + Suc (n - Suc a)" by simp
  then have "replicate n x = replicate (a + Suc (n - Suc a)) x" by simp
  also have "\<dots> = replicate a x @ x # replicate (n - Suc a) x"
    by (simp only: replicate_add replicate_Suc)
  finally show ?thesis .
qed

lemma frame_fields:
  assumes "m1 = m\<lparr>called := c, trace := tr\<rparr>"
  shows "retriever m1 = retriever m" and "refreshBuffer m1 = refreshBuffer m"
    and "token m1 = token m" and "mu m1 = mu m"
  using assms by simp_all

lemma loop_ticks_success:
  assumes "\<forall>i<a. failed (retriever m (called m + i))"
    and "retriever m (called m + a) = (t, v, None)"
  shows "\<exists>m'. refreshInner_loop e (replicate a Tick @ Tick # rest) m = (Some (t, v, None), m', rest)
             \<and> called m' = called m + a + 1"
proof -
  from loop_failing_ticks [OF assms(1), of e "Tick # rest"]
  obtain m1 e1 where run: "refreshInner_loop e (replicate a Tick @ Tick # rest) m =
                          refreshInner_loop e1 (Tick # rest) m1"
    and c: "called m1 = called m + a"
    and fr: "m1 = m\<lparr>called := called m1, trace := trace m1\<rparr>"
    by blast
  from frame_fields(1) [OF fr] c assms(2) have ret: "retriever m1 (called m1) = (t, v, None)"
    by simp
  then have "\<not> failed (retriever m1 (called m1))" by (simp add: failed_def)
  from loop_Tick_ok [OF this, of e1 rest] ret run c
  have "refreshInner_loop e (replicate a Tick @ Tick # rest) m =
          (Some (t, v, None), snd (RetrieveToken m1), rest)
        \<and> called (snd (RetrieveToken m1)) = called m + a + 1"
    by (simp add: step_defs)
  then show ?thesis by blast
qed

lemma loop_ticks_stop:
  assumes "\<forall>i<j. failed (retriever m (called m + i))" and "1 \<le> j"
  shows "\<exists>m'. refreshInner_loop e (replicate j Tick @ Stop # rest) m =
                 (Some ([], 0, snd (snd (retriever m (called m + j - 1)))), m', rest)
             \<and> called m' = called m + j"
proof -
  from loop_failing_ticks [OF assms(1), of e "Stop # rest"] assms(2)
  obtain m1 where "refreshInner_loop e (replicate j Tick @ Stop # rest) m =
                     refreshInner_loop (snd (snd (retriever m (called m + j - 1)))) (Stop # rest) m1"
    and "called m1 = called m + j"
    by auto
  then show ?thesis by auto
qed

lemma refresh_constant_ticks_success:
  assumes "\<forall>i<a. failed (retriever m (called m + i))"
    and "retriever m (called m + a) = (t, v, None)"
  shows "fst (refresh_constant (replicate a Tick @ Tick # rest) m) = Returned (v - refreshBuffer m) None
       \<and> token (snd (refresh_constant (replicate a Tick @ Tick # rest) m)) = t
       \<and> called (snd (refresh_constant (replicate a Tick @ Tick # rest) m)) = called m + a + 1"
proof -
  from loop_ticks_success [OF assms, of None rest]
  obtain m' where run: "refreshInner_loop None (replicate a Tick @ Tick # rest) m = (Some (t, v, None), m', rest)"
    and c: "called m' = called m + a + 1"
    by blast
  from loop_fields(2) [OF run] run c show ?thesis
    by (simp add: refresh_constant_def refreshInner_def step_defs)
qed

subsection \<open>GetToken\<close>

lemma GetToken_blocked: "writer (mu m) \<Longrightarrow> GetToken m = (None, m)"
  by (simp add: GetToken_def RLock_def)

lemma GetToken_unblocked:
  "\<not> writer (mu m) \<Longrightarrow>
     GetToken m =
       (Some (token m, if token m = [] then Some (ErrorNew ''Token is invalid or expired'') else None),
        m)"
  by (simp add: GetToken_def RLock_def RUnlock_def)

text \<open>
  Claim C6. Whatever the cache holds, a \<^verbatim>\<open>GetToken\<close> that gets the read lock returns the
  stored token, with the error "Token is invalid or expired" exactly when the stored token
  is the empty string and with no error otherwise, and it leaves the refresher, its token
  included, as it was. (While a writer holds the lock the call blocks, \<open>GetToken_blocked\<close>.)
\<close>

theorem GetToken_invalid_iff_empty:
  assumes "\<not> writer (mu m)"
  shows "\<exists>err. GetToken m = (Some (token m, err), m)
           \<and> (err = Some (ErrorNew ''Token is invalid or expired'') \<longleftrightarrow> token m = [])
           \<and> (err = None \<longleftrightarrow> token m \<noteq> [])"
  using assms by (simp add: GetToken_unblocked)

theorem GetToken_invalid_iff_empty_witness:
  "\<not> writer (mu (NewTokenRefresher 0 (mockRetriever 0 ''a'' 0)))
   \<and> (\<exists>err. GetToken (NewTokenRefresher 0 (mockRetriever 0 ''a'' 0))
               = (Some (token (NewTokenRefresher 0 (mockRetriever 0 ''a'' 0)), err),
                  NewTokenRefresher 0 (mockRetriever 0 ''a'' 0))
           \<and> (err = Some (ErrorNew ''Token is invalid or expired'')
                \<longleftrightarrow> token (NewTokenRefresher 0 (mockRetriever 0 ''a'' 0)) = [])
           \<and> (err = None \<longleftrightarrow> token (NewTokenRefresher 0 (mockRetriever 0 ''a'' 0)) \<noteq> []))"
proof -
  have h: "\<not> writer (mu (NewTokenRefresher 0 (mockRetriever 0 ''a'' 0)))"
    by (simp add: NewTokenRefresher_def)
  show ?thesis using h GetToken_invalid_iff_empty [OF h] by blast
qed

subsection \<open>A forced refresh whose first fetch succeeds\<close>

lemma refresh_forced_success:
  assumes "unlocked m" and "retriever m (called m) = (t, v, None)"
  shows "refresh True evs m =
           (Returned (v - refreshBuffer m) None,
            m\<lparr>token := t, called := Suc (called m),
              trace := trace m @ [Act_Lock, Act_RetrieveToken, Act_setToken t, Act_Unlock]\<rparr>)"
  using assms by (simp add: refresh_def step_defs unlocked_def)



subsection \<open>What a refresh can return\<close>

text \<open>
  Claim C5. Whatever the mode, the Retriever and the outcomes of the \<^verbatim>\<open>select\<close>s, a call
  of \<^verbatim>\<open>refresh\<close> that returns gives either \<^verbatim>\<open>ErrShutdown\<close> (with delay 0) or a nil
  error, and no other error. In the second case, when the tickers behave as the backoff
  library promises (\<open>ticker_ok\<close>), the last Retriever call of the run succeeded, its token
  is the one stored, and the delay is its validity minus \<open>refreshBuffer\<close> (in Go's
  \<^verbatim>\<open>int64\<close> arithmetic, so it may be negative). A call that has not returned is retrying in
  a \<^verbatim>\<open>select\<close>, where a shutdown makes it return \<^verbatim>\<open>ErrShutdown\<close>, or, only when the lock
  was not free at its start, blocked in \<^verbatim>\<open>Lock\<close>.
\<close>

theorem refresh_returns_success_or_shutdown:
  assumes "refresh forced evs m = (out, m')"
  shows "(out = WaitLock \<longrightarrow> \<not> unlocked m)
       \<and> (out = WaitSelect \<longrightarrow>
            fst (refresh forced (evs @ [Done]) m) = Returned 0 (Some ErrShutdown))
       \<and> (\<forall>d err. out = Returned d err \<longrightarrow>
            (err = Some ErrShutdown \<and> d = 0)
            \<or> (err = None
                \<and> (ticker_ok evs \<longrightarrow>
                     called m < called m'
                     \<and> (\<exists>t v. retriever m (called m' - 1) = (t, v, None)
                               \<and> d = v - refreshBuffer m \<and> token m' = t))))"
proof (intro conjI impI allI)
  assume "out = WaitLock"
  with assms refresh_WaitLock show "\<not> unlocked m" by simp
next
  assume "out = WaitSelect"
  with assms refresh_shutdown [of forced evs m m']
  show "fst (refresh forced (evs @ [Done]) m) = Returned 0 (Some ErrShutdown)" by auto
next
  fix d err
  assume out: "out = Returned d err"
  show "(err = Some ErrShutdown \<and> d = 0)
        \<or> (err = None
            \<and> (ticker_ok evs \<longrightarrow>
                 called m < called m'
                 \<and> (\<exists>t v. retriever m (called m' - 1) = (t, v, None)
                           \<and> d = v - refreshBuffer m \<and> token m' = t)))"
  proof (cases err)
    case (Some e)
    with assms out refresh_returned_error [of forced evs m d e m'] show ?thesis by simp
  next
    case None
    have "ticker_ok evs \<longrightarrow>
            called m < called m'
            \<and> (\<exists>t v. retriever m (called m' - 1) = (t, v, None)
                      \<and> d = v - refreshBuffer m \<and> token m' = t)"
    proof
      assume ok: "ticker_ok evs"
      from assms out None have run: "refresh forced evs m = (Returned d None, m')" by simp
      from refresh_last [OF run ok]
      have lt: "called m < called m'" and nf: "\<not> failed (retriever m (called m' - 1))" by simp_all
      obtain t v e where ret: "retriever m (called m' - 1) = (t, v, e)"
        by (cases "retriever m (called m' - 1)") auto
      with nf have e: "e = None" by (simp add: failed_def)
      from refresh_calls [OF run _ _ nf] lt ret
      have "d = v - refreshBuffer m" and "token m' = t" by simp_all
      with lt ret e show "called m < called m'
            \<and> (\<exists>t v. retriever m (called m' - 1) = (t, v, None)
                      \<and> d = v - refreshBuffer m \<and> token m' = t)" by simp
    qed
    with None show ?thesis by simp
  qed
qed

theorem refresh_returns_success_or_shutdown_witness:
  "ticker_ok [Tick, Stop, Tick]
   \<and> fst (refresh True [Tick, Stop, Tick] failing_fixture) = WaitSelect
   \<and> fst (refresh True ([Tick, Stop, Tick] @ [Done]) failing_fixture) = Returned 0 (Some ErrShutdown)
   \<and> fst (refresh False [Tick, Stop, Tick] (failing_fixture\<lparr>retriever := mockRetriever 1 ''new'' 7\<rparr>))
       = Returned (7 - 5 * Minute) None
   \<and> token (snd (refresh False [Tick, Stop, Tick]
        (failing_fixture\<lparr>retriever := mockRetriever 1 ''new'' 7\<rparr>))) = ''new''"
proof -
  let ?m = "failing_fixture\<lparr>retriever := mockRetriever 1 ''new'' 7\<rparr>"
  have ok: "ticker_ok [Tick, Stop, Tick]" by (simp add: ticker_ok_def stops_def)
  have w: "fst (refresh True [Tick, Stop, Tick] failing_fixture) = WaitSelect"
    by (simp add: failing_fixture_def eval_defs)
  have r: "fst (refresh False [Tick, Stop, Tick] ?m) = Returned (7 - 5 * Minute) None"
    by (simp add: failing_fixture_def eval_defs)
  have c: "called (snd (refresh False [Tick, Stop, Tick] ?m)) = 2"
    by (simp add: failing_fixture_def eval_defs)
  have ret: "retriever ?m 1 = (''new'', 7, None)" by (simp add: mockRetriever_def)
  from refresh_returns_success_or_shutdown
         [of True "[Tick, Stop, Tick]" failing_fixture WaitSelect
             "snd (refresh True [Tick, Stop, Tick] failing_fixture)"] w
  have "fst (refresh True ([Tick, Stop, Tick] @ [Done]) failing_fixture) = Returned 0 (Some ErrShutdown)"
    by (metis prod.collapse)
  moreover
  from refresh_returns_success_or_shutdown
         [of False "[Tick, Stop, Tick]" ?m "Returned (7 - 5 * Minute) None"
             "snd (refresh False [Tick, Stop, Tick] ?m)"] r ok c ret
  have "token (snd (refresh False [Tick, Stop, Tick] ?m)) = ''new''"
    by (metis (no_types, lifting) prod.collapse diff_Suc_1 numeral_2_eq_2 One_nat_def
        option.distinct(1) prod.inject)
  ultimately show ?thesis using ok w r by simp
qed

subsection \<open>Shutdown\<close>

text \<open>
  Claim C7. Shutdown clears no token. \<^verbatim>\<open>Close\<close> returns nil and leaves the stored token
  as it is (the first \<^verbatim>\<open>Close\<close> closes the channel \<^verbatim>\<open>done\<close>); and a refresh, forced or
  not, that waits in a \<^verbatim>\<open>select\<close> and then receives from \<^verbatim>\<open>done\<close> returns
  \<^verbatim>\<open>ErrShutdown\<close> with the stored token exactly as it was while the refresh was waiting: a
  token that was cached and not empty then is still there.
\<close>

theorem shutdown_keeps_token:
  "fst (Close m) = None
   \<and> token (snd (Close m)) = token m
   \<and> (\<not> closeOnce m \<longrightarrow> done_ch (snd (Close m)))
   \<and> (fst (refresh forced evs m) = WaitSelect \<longrightarrow>
        fst (refresh forced (evs @ [Done]) m) = Returned 0 (Some ErrShutdown)
        \<and> token (snd (refresh forced (evs @ [Done]) m)) = token (snd (refresh forced evs m)))"
proof (intro conjI impI)
  show "fst (Close m) = None" by (simp add: Close_def)
  show "token (snd (Close m)) = token m" by (simp add: Close_def)
  show "done_ch (snd (Close m))" if "\<not> closeOnce m" using that by (simp add: Close_def)
next
  assume w: "fst (refresh forced evs m) = WaitSelect"
  then have "refresh forced evs m = (WaitSelect, snd (refresh forced evs m))"
    by (metis prod.collapse)
  from refresh_shutdown [OF this]
  show "fst (refresh forced (evs @ [Done]) m) = Returned 0 (Some ErrShutdown)"
    and "token (snd (refresh forced (evs @ [Done]) m)) = token (snd (refresh forced evs m))"
    by (auto simp: Unlock_token)
qed

theorem shutdown_keeps_token_witness:
  "fst (refresh False [Tick] failing_fixture) = WaitSelect
   \<and> fst (refresh False ([Tick] @ [Done]) failing_fixture) = Returned 0 (Some ErrShutdown)
   \<and> token (snd (refresh False ([Tick] @ [Done]) failing_fixture)) = ''oldToken''"
proof -
  have w: "fst (refresh False [Tick] failing_fixture) = WaitSelect"
    by (simp add: failing_fixture_def eval_defs)
  have t: "token (snd (refresh False [Tick] failing_fixture)) = ''oldToken''"
    by (simp add: failing_fixture_def eval_defs)
  from shutdown_keeps_token [of failing_fixture False "[Tick]"] w t show ?thesis by simp
qed


subsection \<open>An empty token that was fetched\<close>

text \<open>
  Claim C10. If, in a refresh entered with the lock free, some Retriever call succeeds but
  returns the empty string, that call is the last of the refresh, the refresh returns a nil
  error (with the usual delay) and the empty string is what it stores; \<^verbatim>\<open>GetToken\<close> then
  returns the error "Token is invalid or expired" and changes nothing, so every later
  \<^verbatim>\<open>GetToken\<close> does the same until another refresh, exactly as on a refresher that never
  had a token.
\<close>

theorem empty_token_is_no_token:
  assumes "unlocked m" and "refresh forced evs m = (out, m')"
    and "called m \<le> i" and "i < called m'" and "retriever m i = ([], v, None)"
  shows "out = Returned (v - refreshBuffer m) None
       \<and> token m' = []
       \<and> GetToken m' = (Some ([], Some (ErrorNew ''Token is invalid or expired'')), m')
       \<and> fst (GetToken m') = fst (GetToken (NewTokenRefresher (refreshBuffer m) (retriever m)))"
proof -
  from assms(5) have nf: "\<not> failed (retriever m i)" by (simp add: failed_def)
  from refresh_calls [OF assms(2,3,4) nf] assms(5)
  have out: "out = Returned (v - refreshBuffer m) None" and tok: "token m' = []" by simp_all
  from refresh_returned_unlocked [of forced evs m _ None m'] assms(1,2) out
  have "\<not> writer (mu m')" by (simp add: unlocked_def)
  from GetToken_unblocked [OF this] tok
  have get: "GetToken m' = (Some ([], Some (ErrorNew ''Token is invalid or expired'')), m')"
    by simp
  have "fst (GetToken (NewTokenRefresher (refreshBuffer m) (retriever m)))
          = Some ([], Some (ErrorNew ''Token is invalid or expired''))"
    by (simp add: GetToken_def RLock_def NewTokenRefresher_def)
  with out tok get show ?thesis by simp
qed

theorem empty_token_is_no_token_witness:
  "fst (refresh False [Tick, Tick] (NewTokenRefresher (5 * Minute) (mockRetriever 1 [] (3600 * Second))))
     = Returned (3600 * Second - 5 * Minute) None
   \<and> fst (GetToken (snd (refresh False [Tick, Tick]
        (NewTokenRefresher (5 * Minute) (mockRetriever 1 [] (3600 * Second))))))
     = Some ([], Some (ErrorNew ''Token is invalid or expired''))"
proof -
  let ?m = "NewTokenRefresher (5 * Minute) (mockRetriever 1 [] (3600 * Second))"
  have h1: "unlocked ?m" by (simp add: NewTokenRefresher_def unlocked_def)
  have h2: "refresh False [Tick, Tick] ?m =
              (fst (refresh False [Tick, Tick] ?m), snd (refresh False [Tick, Tick] ?m))"
    by simp
  have h3: "called ?m \<le> 1" by (simp add: NewTokenRefresher_def)
  have h4: "1 < called (snd (refresh False [Tick, Tick] ?m))" by (simp add: eval_defs)
  have h5: "retriever ?m 1 = ([], 3600 * Second, None)"
    by (simp add: NewTokenRefresher_def mockRetriever_def)
  from empty_token_is_no_token [OF h1 h2 h3 h4 h5] show ?thesis
    by (simp add: NewTokenRefresher_def)
qed

subsection \<open>A forced refresh after k failures\<close>



subsection \<open>A timed refresh whose exponential phase gives up\<close>

lemma loop_trace:
  "refreshInner_loop e evs m = (r, m', rest) \<Longrightarrow>
     \<exists>tr. trace m' = trace m @ tr \<and> set tr \<subseteq> loop_actions"
proof (induction evs arbitrary: e m)
  case Nil
  then show ?case by simp
next
  case (Cons ev evs)
  show ?case
  proof (cases ev)
    case Tick
    show ?thesis
    proof (cases "failed (retriever m (called m))")
      case True
      with Cons.prems Tick
      have "refreshInner_loop (snd (snd (retriever m (called m)))) evs (retry m) = (r, m', rest)"
        by (simp add: loop_Tick_failed)
      from Cons.IH [OF this] obtain tr where
        "trace m' = trace (retry m) @ tr" and "set tr \<subseteq> loop_actions" by blast
      then have "trace m' = trace m @ ([Act_RetrieveToken, Act_Error ''Failed to refresh token. Retrying...''] @ tr)
                 \<and> set ([Act_RetrieveToken, Act_Error ''Failed to refresh token. Retrying...''] @ tr) \<subseteq> loop_actions"
        by (simp add: retry_def step_defs loop_actions_def)
      then show ?thesis by blast
    next
      case False
      with Cons.prems Tick have "trace m' = trace m @ [Act_RetrieveToken]"
        by (auto simp: loop_Tick_ok step_defs)
      then have "trace m' = trace m @ [Act_RetrieveToken] \<and> set [Act_RetrieveToken] \<subseteq> loop_actions"
        by (simp add: loop_actions_def)
      then show ?thesis by blast
    qed
  next
    case Stop
    with Cons.prems show ?thesis by auto
  next
    case Done
    with Cons.prems show ?thesis by auto
  qed
qed




subsection \<open>Refresh requests\<close>

lemma Refresh_unbuffered:
  assumes "capacity (force m) = 0"
  shows "Refresh m = (if receiver (force m)
                      then act Act_force (m\<lparr>force := (force m)\<lparr>receiver := False\<rparr>\<rparr>)
                      else m)"
  using assms by (simp add: Refresh_def try_send_def)

lemma Refresh_repeated:
  assumes "capacity (force m) = 0"
  shows "(Refresh ^^ n) m = (if receiver (force m) \<and> 0 < n
                             then act Act_force (m\<lparr>force := (force m)\<lparr>receiver := False\<rparr>\<rparr>)
                             else m)"
proof (induction n)
  case 0
  show ?case by simp
next
  case (Suc n)
  let ?m1 = "act Act_force (m\<lparr>force := (force m)\<lparr>receiver := False\<rparr>\<rparr>)"
  have c1: "capacity (force ?m1) = 0" and r1: "\<not> receiver (force ?m1)"
    using assms by (simp_all add: act_def)
  show ?case
  proof (cases "receiver (force m)")
    case False
    with Suc assms show ?thesis by (simp add: Refresh_unbuffered)
  next
    case True
    show ?thesis
    proof (cases n)
      case 0
      with True assms show ?thesis by (simp add: Refresh_unbuffered)
    next
      case (Suc n')
      with True \<open>(Refresh ^^ n) m = _\<close> have "(Refresh ^^ n) m = ?m1" by simp
      then have "(Refresh ^^ Suc n) m = Refresh ?m1" by simp
      also have "\<dots> = ?m1" using Refresh_unbuffered [OF c1] r1 by simp
      finally show ?thesis using True by simp
    qed
  qed
qed

text \<open>
  Claim C9. \<^verbatim>\<open>Refresh\<close> never blocks: it is a total function of the state, with no
  waiting outcome. On the unbuffered channel that \<^verbatim>\<open>NewTokenRefresher\<close> makes, a request
  is handed over only when the refresher goroutine waits in its \<^verbatim>\<open>select\<close>, and that ends
  the wait; a request made when the goroutine does not wait there, in particular after
  it has taken a request that it has not finished serving, changes nothing at all. So of
  any \<open>n\<close> calls made in a row at most one is handed over, none is ever queued in the
  channel, and the token is untouched.
\<close>

theorem Refresh_drops_while_pending:
  assumes "capacity (force m) = 0"
  shows "(\<not> receiver (force m) \<longrightarrow> Refresh m = m)
       \<and> (receiver (force m) \<longrightarrow>
            Refresh m = act Act_force (m\<lparr>force := (force m)\<lparr>receiver := False\<rparr>\<rparr>)
            \<and> Refresh (Refresh m) = Refresh m)
       \<and> count_list (trace ((Refresh ^^ n) m)) Act_force \<le> count_list (trace m) Act_force + 1
       \<and> queued (force ((Refresh ^^ n) m)) = queued (force m)
       \<and> token ((Refresh ^^ n) m) = token m"
proof -
  let ?m1 = "act Act_force (m\<lparr>force := (force m)\<lparr>receiver := False\<rparr>\<rparr>)"
  have c1: "capacity (force ?m1) = 0" and r1: "\<not> receiver (force ?m1)"
    using assms by (simp_all add: act_def)
  have a: "\<not> receiver (force m) \<longrightarrow> Refresh m = m"
    using Refresh_unbuffered [OF assms] by simp
  have b: "receiver (force m) \<longrightarrow> Refresh m = ?m1 \<and> Refresh (Refresh m) = Refresh m"
    using Refresh_unbuffered [OF assms] Refresh_unbuffered [OF c1] r1 by simp
  have c: "count_list (trace ((Refresh ^^ n) m)) Act_force \<le> count_list (trace m) Act_force + 1"
    and d: "queued (force ((Refresh ^^ n) m)) = queued (force m)"
    and e: "token ((Refresh ^^ n) m) = token m"
    by (simp_all add: Refresh_repeated [OF assms] act_def)
  from a b c d e show ?thesis by blast
qed

theorem Refresh_drops_while_pending_witness:
  "capacity (force (await_select (NewTokenRefresher (5 * Minute) (mockRetriever 0 ''a'' 0)))) = 0
   \<and> receiver (force (await_select (NewTokenRefresher (5 * Minute) (mockRetriever 0 ''a'' 0))))
   \<and> count_list (trace ((Refresh ^^ 3)
        (await_select (NewTokenRefresher (5 * Minute) (mockRetriever 0 ''a'' 0))))) Act_force = 1
   \<and> Refresh (Refresh (await_select (NewTokenRefresher (5 * Minute) (mockRetriever 0 ''a'' 0))))
       = Refresh (await_select (NewTokenRefresher (5 * Minute) (mockRetriever 0 ''a'' 0)))
   \<and> Refresh (NewTokenRefresher (5 * Minute) (mockRetriever 0 ''a'' 0))
       = NewTokenRefresher (5 * Minute) (mockRetriever 0 ''a'' 0)"
proof -
  let ?fresh = "NewTokenRefresher (5 * Minute) (mockRetriever 0 ''a'' 0)"
  let ?waiting = "await_select ?fresh"
  have h: "capacity (force ?waiting) = 0" by (simp add: await_select_def NewTokenRefresher_def)
  have h0: "capacity (force ?fresh) = 0" by (simp add: NewTokenRefresher_def)
  have r: "receiver (force ?waiting)" by (simp add: await_select_def)
  have r0: "\<not> receiver (force ?fresh)" by (simp add: NewTokenRefresher_def)
  have n: "count_list (trace ((Refresh ^^ 3) ?waiting)) Act_force = 1"
    by (simp add: numeral_3_eq_3 Refresh_def try_send_def await_select_def NewTokenRefresher_def act_def)
  from Refresh_drops_while_pending [OF h, of 3] r
  have "Refresh (Refresh ?waiting) = Refresh ?waiting" by blast
  moreover from Refresh_drops_while_pending [OF h0, of 0] r0 have "Refresh ?fresh = ?fresh" by blast
  ultimately show ?thesis using h r n by simp
qed

subsection \<open>A timed refresh whose exponential phase succeeds\<close>

text \<open>
  Claim C1 says that the new token is written while the exclusive lock is held. The
  source does not do that: \<^verbatim>\<open>m.mu.Lock()\<close> is called in forced mode (line 150) and after
  the exponential phase has failed (line 169) only, so the \<^verbatim>\<open>setToken\<close> of line 181 runs
  without the lock when a timed refresh succeeds in its exponential phase. The run of
  the test \<^verbatim>\<open>TestRefreshInternalExponentialSuccess\<close>, with one tick: the Retriever is
  called and the token written, and the lock is never taken.
\<close>

theorem timed_refresh_writes_without_lock:
  "refresh False [Tick] timed_fixture =
     (Returned (3600 * Second - 5 * Minute) None,
      timed_fixture\<lparr>token := ''newToken123'', called := 1,
                     trace := [Act_RetrieveToken, Act_setToken ''newToken123'']\<rparr>)"
  by (simp add: timed_fixture_def eval_defs)

text \<open>The same for every timed refresh whose exponential phase succeeds.\<close>

lemma timed_refresh_never_locks:
  assumes "refreshInner (ExponentialBackOff (refreshBuffer m - Second)) evs m
             = (Some (tok, x, None), m1, rest)"
  shows "\<exists>tr. refresh False evs m = (Returned (x - refreshBuffer m) None, setToken tok m1)
            \<and> trace (setToken tok m1) = trace m @ tr @ [Act_setToken tok]
            \<and> set tr \<subseteq> loop_actions
            \<and> mu (setToken tok m1) = mu m"
proof -
  from assms have l: "refreshInner_loop None evs m = (Some (tok, x, None), m1, rest)"
    by (simp add: refreshInner_def)
  from loop_trace [OF l] obtain tr where tr: "trace m1 = trace m @ tr" "set tr \<subseteq> loop_actions"
    by blast
  note f = loop_fields [OF l]
  have "refresh False evs m = (Returned (x - refreshBuffer m) None, setToken tok m1)"
    using assms f(2) by (simp add: refresh_def refresh_backoff_def step_defs)
  moreover have "trace (setToken tok m1) = trace m @ tr @ [Act_setToken tok]"
    using tr(1) by (simp add: step_defs)
  moreover have "mu (setToken tok m1) = mu m" using f(4) by (simp add: step_defs)
  ultimately show ?thesis using tr(2) by blast
qed

subsection \<open>The scenario of the tests\<close>

text \<open>
  As first stated, claim C8 gives the delay as 3595 minutes. The forced refresh of the
  scenario returns 3300000000000 ns, which is 3300 s; 3595 minutes are 215700 s.
\<close>

theorem forced_refresh_scenario_not_3595_minutes:
  "fst (refresh True [] (NewTokenRefresher (5 * Minute) (mockRetriever 0 ''newToken123'' (3600 * Second))))
     = Returned 3300000000000 None
   \<and> fst (refresh True [] (NewTokenRefresher (5 * Minute) (mockRetriever 0 ''newToken123'' (3600 * Second))))
     \<noteq> Returned (3595 * Minute) None
   \<and> 3595 * Minute = (215700000000000 :: duration)"
  by (simp add: eval_defs Minute_def Second_def)

text \<open>
  Claim C8, amended. With a refresh buffer of five minutes and a Retriever that always
  succeeds with a validity of 3600 seconds, a forced refresh entered with the lock free
  returns the delay 3600 s - 5 min = 3300 s, which is 55 minutes, with a nil error; the
  cache holds the fetched token and the Retriever has been called exactly once.
\<close>

theorem forced_refresh_scenario:
  assumes "unlocked m" and "refreshBuffer m = 5 * Minute"
    and "\<forall>i. retriever m i = (t, 3600 * Second, None)"
  shows "fst (refresh True evs m) = Returned (3300 * Second) None
       \<and> 3300 * Second = 55 * Minute
       \<and> sint (3300 * Second) = 3300000000000
       \<and> token (snd (refresh True evs m)) = t
       \<and> called (snd (refresh True evs m)) = called m + 1"
proof -
  from assms(3) have "retriever m (called m) = (t, 3600 * Second, None)" by simp
  from refresh_forced_success [OF assms(1) this, of evs] assms(2)
  show ?thesis by (simp add: Minute_def Second_def)
qed

theorem forced_refresh_scenario_witness:
  "fst (refresh True [] (NewTokenRefresher (5 * Minute) (mockRetriever 0 ''newToken123'' (3600 * Second))))
     = Returned (3300 * Second) None
   \<and> token (snd (refresh True [] (NewTokenRefresher (5 * Minute)
        (mockRetriever 0 ''newToken123'' (3600 * Second))))) = ''newToken123''
   \<and> called (snd (refresh True [] (NewTokenRefresher (5 * Minute)
        (mockRetriever 0 ''newToken123'' (3600 * Second))))) = 1"
proof -
  let ?m = "NewTokenRefresher (5 * Minute) (mockRetriever 0 ''newToken123'' (3600 * Second))"
  have h1: "unlocked ?m"
    by (simp add: NewTokenRefresher_def unlocked_def)
  have h2: "refreshBuffer ?m = 5 * Minute"
    by (simp add: NewTokenRefresher_def)
  have h3: "\<forall>i. retriever ?m i = (''newToken123'', 3600 * Second, None)"
    by (simp add: NewTokenRefresher_def mockRetriever_def)
  show ?thesis
    using forced_refresh_scenario [OF h1 h2 h3, of "[]"]
    by (simp add: NewTokenRefresher_def)
qed

end
